theory Spec2Isabelle
  imports Main "HOL-Library.Sublist" "HOL-Library.Word"
begin

unbundle bit_operations_syntax

section \<open>Python values that reach the two handlers\<close>

text \<open>
  \<^verbatim>\<open>request.get_json()\<close> hands the handler the parsed JSON body as a Python value:
  \<^verbatim>\<open>None\<close>, a bool, an int, a float (its 64 bits), a str, a list or a dict. A dict is kept
  as its list of items; \<^verbatim>\<open>d[k]\<close> is \<open>map_of\<close> on that list.
\<close>

datatype pyval =
    PNone
  | PBool bool
  | PInt int
  | PFloat "64 word"
  | PStr string
  | PList "pyval list"
  | PDict "(string \<times> pyval) list"

datatype error = TypeError | KeyError string

text \<open>
  Truth value testing, as \<^verbatim>\<open>not data\<close> and \<^verbatim>\<open>if secret:\<close> use it: \<^verbatim>\<open>None\<close>, \<^verbatim>\<open>False\<close>,
  zero of either numeric type (for a float: every bit but the sign is clear) and the empty
  str, list and dict are false; everything else is true.
\<close>

fun truthy :: "pyval \<Rightarrow> bool" where
  "truthy PNone = False"
| "truthy (PBool b) = b"
| "truthy (PInt i) = (i \<noteq> 0)"
| "truthy (PFloat w) = (w AND mask 63 \<noteq> 0)"
| "truthy (PStr s) = (s \<noteq> [])"
| "truthy (PList xs) = (xs \<noteq> [])"
| "truthy (PDict kvs) = (kvs \<noteq> [])"

text \<open>
  \<^verbatim>\<open>k in data\<close> for a str \<open>k\<close>: a key test on a dict, an element test on a list, a
  substring test on a str, and a \<^verbatim>\<open>TypeError\<close> on a value that is not a container.
\<close>

fun py_contains :: "pyval \<Rightarrow> string \<Rightarrow> error + bool" where
  "py_contains (PDict kvs) k = Inr (k \<in> set (map fst kvs))"
| "py_contains (PList xs) k = Inr (PStr k \<in> set xs)"
| "py_contains (PStr s) k = Inr (sublist k s)"
| "py_contains PNone k = Inl TypeError"
| "py_contains (PBool b) k = Inl TypeError"
| "py_contains (PInt i) k = Inl TypeError"
| "py_contains (PFloat w) k = Inl TypeError"

text \<open>
  \<^verbatim>\<open>data[k]\<close> for a str \<open>k\<close>: the value under the key of a dict (\<^verbatim>\<open>KeyError\<close> when there is
  none), and a \<^verbatim>\<open>TypeError\<close> on every other value: a list and a str take integer indices
  only, the rest cannot be subscripted.
\<close>

fun py_getitem :: "pyval \<Rightarrow> string \<Rightarrow> error + pyval" where
  "py_getitem (PDict kvs) k = (case map_of kvs k of None \<Rightarrow> Inl (KeyError k) | Some v \<Rightarrow> Inr v)"
| "py_getitem (PList xs) k = Inl TypeError"
| "py_getitem (PStr s) k = Inl TypeError"
| "py_getitem PNone k = Inl TypeError"
| "py_getitem (PBool b) k = Inl TypeError"
| "py_getitem (PInt i) k = Inl TypeError"
| "py_getitem (PFloat w) k = Inl TypeError"

section \<open>The store and the two handlers of app.py\<close>

text \<open>
  The state of the process: the global dict \<^verbatim>\<open>secrets_store\<close> and the number of identifiers
  drawn from \<^verbatim>\<open>uuid.uuid4()\<close> so far. The generator belongs to the standard library; it is a
  parameter \<open>uuid4\<close>, the sequence of strings that \<^verbatim>\<open>str(uuid.uuid4())\<close> evaluates to, in
  call order.
\<close>

record state =
  secrets_store :: "string \<rightharpoonup> pyval"
  uuid_calls :: nat

definition initial :: state where
  "initial = \<lparr>secrets_store = Map.empty, uuid_calls = 0\<rparr>"

text \<open>A response is the value given to \<^verbatim>\<open>jsonify\<close> and the HTTP status.\<close>

type_synonym response = "pyval \<times> nat"

type_synonym outcome = "error + response"

definition field :: string where
  "field = ''encrypted_data''"

definition required_400 :: response where
  "required_400 = (PDict [(''error'', PStr ''encrypted_data is required'')], 400)"

definition created_201 :: "string \<Rightarrow> response" where
  "created_201 secret_id = (PDict [(''secret_id'', PStr secret_id)], 201)"

definition not_found_404 :: response where
  "not_found_404 =
     (PDict [(''error'', PStr ''Secret not found. It may have been viewed already.'')], 404)"

text \<open>
  \<^verbatim>\<open>store_secret\<close>, lines 20 to 27. The guard returns 400 before anything is drawn or
  stored. An exception of the membership test leaves the state as it was; one of the
  subscript on line 25 comes after the identifier was drawn on line 24 and before the
  assignment to the store.
\<close>

definition store_secret :: "(nat \<Rightarrow> string) \<Rightarrow> pyval \<Rightarrow> state \<Rightarrow> outcome \<times> state" where
  "store_secret uuid4 data s =
     (if \<not> truthy data then (Inr required_400, s)
      else case py_contains data field of
        Inl e \<Rightarrow> (Inl e, s)
      | Inr False \<Rightarrow> (Inr required_400, s)
      | Inr True \<Rightarrow>
          (let secret_id = uuid4 (uuid_calls s);
               s1 = s\<lparr>uuid_calls := Suc (uuid_calls s)\<rparr>
           in case py_getitem data field of
                Inl e \<Rightarrow> (Inl e, s1)
              | Inr v \<Rightarrow>
                  (Inr (created_201 secret_id),
                   s1\<lparr>secrets_store := (secrets_store s1)(secret_id \<mapsto> PDict [(field, v)])\<rparr>)))"

text \<open>
  \<^verbatim>\<open>retrieve_secret\<close>, lines 36 to 41: \<^verbatim>\<open>pop(secret_id, None)\<close> removes the key and gives
  its value, or \<^verbatim>\<open>None\<close> when the key is not there; the branch is on the truth value of
  what was popped. A success is \<^verbatim>\<open>jsonify(secret)\<close> with the default status 200.
\<close>

definition retrieve_secret :: "string \<Rightarrow> state \<Rightarrow> outcome \<times> state" where
  "retrieve_secret secret_id s =
     (let secret = (case secrets_store s secret_id of None \<Rightarrow> PNone | Some v \<Rightarrow> v);
          s1 = s\<lparr>secrets_store := (secrets_store s)(secret_id := None)\<rparr>
      in if truthy secret then (Inr (secret, 200), s1)
         else (Inr not_found_404, s1))"

section \<open>Requests served one after the other\<close>

datatype request = POST pyval | GET string

fun handle :: "(nat \<Rightarrow> string) \<Rightarrow> request \<Rightarrow> state \<Rightarrow> outcome \<times> state" where
  "handle uuid4 (POST data) s = store_secret uuid4 data s"
| "handle uuid4 (GET secret_id) s = retrieve_secret secret_id s"

text \<open>The state after a list of requests, each served to its end before the next.\<close>

fun serve :: "(nat \<Rightarrow> string) \<Rightarrow> request list \<Rightarrow> state \<Rightarrow> state" where
  "serve uuid4 [] s = s"
| "serve uuid4 (r # rs) s = serve uuid4 rs (snd (handle uuid4 r s))"

section \<open>Retrievals that run at the same time\<close>

text \<open>
  \<^verbatim>\<open>retrieve_secret\<close> touches the store once, in the \<^verbatim>\<open>pop\<close> of line 36; lines 38 to 41 work
  on the local \<^verbatim>\<open>secret\<close> alone. So a retrieval is two steps: the pop, which gives the popped
  value and the store without the key, and the answer computed from the popped value.
\<close>

definition pop_secret :: "string \<Rightarrow> state \<Rightarrow> pyval \<times> state" where
  "pop_secret secret_id s =
     ((case secrets_store s secret_id of None \<Rightarrow> PNone | Some v \<Rightarrow> v),
      s\<lparr>secrets_store := (secrets_store s)(secret_id := None)\<rparr>)"

definition answer :: "pyval \<Rightarrow> response" where
  "answer secret = (if truthy secret then (secret, 200) else not_found_404)"

text \<open>
  A thread that serves a retrieval is about to pop, or holds what it popped, or has
  answered. The threads share the state. One step is one thread doing its next step; one
  call of \<^verbatim>\<open>dict.pop\<close> is one step, as the interpreter does not switch threads inside a
  call of a built-in dict method on str keys.
\<close>

datatype thread = Ready string | Popped pyval | Answered response

type_synonym config = "thread list \<times> state"

inductive step :: "config \<Rightarrow> config \<Rightarrow> bool" where
  pop: "i < length ts \<Longrightarrow> ts ! i = Ready secret_id \<Longrightarrow> pop_secret secret_id s = (secret, s') \<Longrightarrow>
        step (ts, s) (ts[i := Popped secret], s')"
| respond: "i < length ts \<Longrightarrow> ts ! i = Popped secret \<Longrightarrow>
        step (ts, s) (ts[i := Answered (answer secret)], s)"

text \<open>
  The same step as a function of the thread that is scheduled (a thread that has answered,
  or an index that is no thread, leaves everything as it is), and a schedule run from left
  to right.
\<close>

fun advance :: "nat \<Rightarrow> config \<Rightarrow> config" where
  "advance i (ts, s) =
     (if i < length ts then
        (case ts ! i of
           Ready secret_id \<Rightarrow>
             (ts[i := Popped (fst (pop_secret secret_id s))], snd (pop_secret secret_id s))
         | Popped secret \<Rightarrow> (ts[i := Answered (answer secret)], s)
         | Answered r \<Rightarrow> (ts, s))
      else (ts, s))"

fun interleave :: "nat list \<Rightarrow> config \<Rightarrow> config" where
  "interleave [] c = c"
| "interleave (i # sched) c = interleave sched (advance i c)"

text \<open>
  A thread has seen the secret when the value it popped is true, or when it has answered
  200.
\<close>

fun observed_success :: "thread \<Rightarrow> bool" where
  "observed_success (Ready secret_id) = False"
| "observed_success (Popped secret) = truthy secret"
| "observed_success (Answered r) = (snd r = 200)"

fun is_answered :: "thread \<Rightarrow> bool" where
  "is_answered (Answered r) = True"
| "is_answered (Ready secret_id) = False"
| "is_answered (Popped secret) = False"

fun steps_left :: "thread \<Rightarrow> nat" where
  "steps_left (Ready secret_id) = 2"
| "steps_left (Popped secret) = 1"
| "steps_left (Answered r) = 0"

text \<open>
  What holds while retrievals of one stored secret race: either the secret is still in the
  store and no thread has popped, or it is gone and one thread holds it (popped or
  answered with it) while every other thread has not popped yet, or popped \<^verbatim>\<open>None\<close>, or
  answered the 404.
\<close>

definition won :: "pyval \<Rightarrow> thread \<Rightarrow> bool" where
  "won secret t = (t = Popped secret \<or> t = Answered (secret, 200))"

definition lost :: "string \<Rightarrow> thread \<Rightarrow> bool" where
  "lost secret_id t = (t = Ready secret_id \<or> t = Popped PNone \<or> t = Answered not_found_404)"

definition race_inv :: "string \<Rightarrow> pyval \<Rightarrow> config \<Rightarrow> bool" where
  "race_inv secret_id secret c =
     ((secrets_store (snd c) secret_id = Some secret
         \<and> (\<forall>i. i < length (fst c) \<longrightarrow> fst c ! i = Ready secret_id))
      \<or> (secrets_store (snd c) secret_id = None
         \<and> (\<exists>w. w < length (fst c) \<and> won secret (fst c ! w)
               \<and> (\<forall>j. j < length (fst c) \<and> j \<noteq> w \<longrightarrow> lost secret_id (fst c ! j)))))"

section \<open>What holds of every state the server reaches\<close>

text \<open>
  Every key of the store is an identifier drawn so far, and every stored secret is the
  one-item dict that line 25 builds.
\<close>

definition store_inv :: "(nat \<Rightarrow> string) \<Rightarrow> state \<Rightarrow> bool" where
  "store_inv uuid4 s =
     (dom (secrets_store s) \<subseteq> uuid4 ` {..<uuid_calls s} \<and>
      (\<forall>k v. secrets_store s k = Some v \<longrightarrow> (\<exists>p. v = PDict [(field, p)])))"

text \<open>
  A generator for the worked instances below: the \<open>n\<close>-th identifier is \<open>n + 1\<close> letters
  \<open>u\<close>, so no identifier comes twice.
\<close>

definition uuid4_example :: "nat \<Rightarrow> string" where
  "uuid4_example n = replicate (Suc n) CHR ''u''"

section \<open>Facts about the handlers\<close>

lemma truthy_secret: "truthy (PDict [(k, v)])" by simp

lemma pop_absent: "secrets_store s k = None \<Longrightarrow> s\<lparr>secrets_store := (secrets_store s)(k := None)\<rparr> = s"
  by (simp add: fun_upd_idem)

lemma retrieve_absent:
  "secrets_store s k = None \<Longrightarrow> retrieve_secret k s = (Inr not_found_404, s)"
  by (simp add: retrieve_secret_def pop_absent)

lemma retrieve_present:
  "secrets_store s k = Some v \<Longrightarrow> truthy v \<Longrightarrow>
   retrieve_secret k s = (Inr (v, 200), s\<lparr>secrets_store := (secrets_store s)(k := None)\<rparr>)"
  by (simp add: retrieve_secret_def)

lemma store_accept:
  "map_of kvs field = Some v \<Longrightarrow>
   store_secret uuid4 (PDict kvs) s =
     (Inr (created_201 (uuid4 (uuid_calls s))),
      s\<lparr>uuid_calls := Suc (uuid_calls s),
        secrets_store := (secrets_store s)(uuid4 (uuid_calls s) \<mapsto> PDict [(field, v)])\<rparr>)"
proof -
  assume a: "map_of kvs field = Some v"
  then have "kvs \<noteq> []" by auto
  moreover from a have "field \<in> set (map fst kvs)" by (metis map_of_eq_None_iff option.distinct(1) set_map)
  ultimately show ?thesis using a by (simp add: store_secret_def Let_def)
qed

lemma store_cases:
  "store_secret uuid4 data s = (Inr required_400, s)
   \<or> (\<exists>e. store_secret uuid4 data s = (Inl e, s))
   \<or> (\<exists>e. store_secret uuid4 data s = (Inl e, s\<lparr>uuid_calls := Suc (uuid_calls s)\<rparr>))
   \<or> (\<exists>v. py_getitem data field = Inr v \<and> store_secret uuid4 data s =
        (Inr (created_201 (uuid4 (uuid_calls s))),
         s\<lparr>uuid_calls := Suc (uuid_calls s),
           secrets_store := (secrets_store s)(uuid4 (uuid_calls s) \<mapsto> PDict [(field, v)])\<rparr>))"
  by (auto simp: store_secret_def Let_def split: sum.splits bool.splits)

lemma created_201_inject: "created_201 a = created_201 b \<Longrightarrow> a = b"
  by (simp add: created_201_def)

lemma created_not_required: "created_201 a \<noteq> required_400"
  by (simp add: created_201_def required_400_def)

lemma store_created:
  assumes "fst (store_secret uuid4 data s) = Inr (created_201 k)"
  shows "k = uuid4 (uuid_calls s) \<and>
         (\<exists>v. py_getitem data field = Inr v \<and>
            snd (store_secret uuid4 data s) =
              s\<lparr>uuid_calls := Suc (uuid_calls s),
                secrets_store := (secrets_store s)(k \<mapsto> PDict [(field, v)])\<rparr>)"
  using store_cases [of uuid4 data s] assms
  by (auto simp: created_201_def required_400_def)

lemma store_calls_mono: "uuid_calls s \<le> uuid_calls (snd (store_secret uuid4 data s))"
  using store_cases [of uuid4 data s] by auto

lemma handle_calls_mono: "uuid_calls s \<le> uuid_calls (snd (handle uuid4 r s))"
  by (cases r) (simp_all add: store_calls_mono retrieve_secret_def Let_def)

lemma serve_calls_mono: "uuid_calls s \<le> uuid_calls (serve uuid4 reqs s)"
proof (induction reqs arbitrary: s)
  case Nil
  show ?case by simp
next
  case (Cons r rs)
  have "uuid_calls s \<le> uuid_calls (snd (handle uuid4 r s))" by (rule handle_calls_mono)
  also have "\<dots> \<le> uuid_calls (serve uuid4 rs (snd (handle uuid4 r s)))" by (rule Cons.IH)
  finally show ?case by simp
qed

lemma serve_append: "serve uuid4 (xs @ ys) s = serve uuid4 ys (serve uuid4 xs s)"
  by (induction xs arbitrary: s) simp_all

lemma store_other:
  "k \<noteq> uuid4 (uuid_calls s) \<Longrightarrow>
   secrets_store (snd (store_secret uuid4 data s)) k = secrets_store s k"
  using store_cases [of uuid4 data s] by auto

lemma retrieve_other:
  "k \<noteq> k' \<Longrightarrow> secrets_store (snd (retrieve_secret k' s)) k = secrets_store s k"
  by (simp add: retrieve_secret_def Let_def)

lemma retrieve_removes: "secrets_store (snd (retrieve_secret k s)) k = None"
  by (simp add: retrieve_secret_def Let_def)

lemma retrieve_calls: "uuid_calls (snd (retrieve_secret k s)) = uuid_calls s"
  by (simp add: retrieve_secret_def Let_def)

lemma handle_other:
  assumes "inj uuid4" "i < uuid_calls s" "r \<noteq> GET (uuid4 i)"
  shows "secrets_store (snd (handle uuid4 r s)) (uuid4 i) = secrets_store s (uuid4 i)"
proof (cases r)
  case (POST data)
  from assms(1,2) have "uuid4 i \<noteq> uuid4 (uuid_calls s)" by (auto dest: injD)
  then show ?thesis using POST by (simp add: store_other)
next
  case (GET k')
  with assms(3) show ?thesis by (simp add: retrieve_other)
qed

lemma serve_other:
  assumes "inj uuid4"
  shows "i < uuid_calls s \<Longrightarrow> GET (uuid4 i) \<notin> set reqs \<Longrightarrow>
         secrets_store (serve uuid4 reqs s) (uuid4 i) = secrets_store s (uuid4 i)"
proof (induction reqs arbitrary: s)
  case Nil
  show ?case by simp
next
  case (Cons r rs)
  let ?s = "snd (handle uuid4 r s)"
  have "i < uuid_calls ?s" using Cons.prems(1) handle_calls_mono [of s uuid4 r] by simp
  moreover have "GET (uuid4 i) \<notin> set rs" using Cons.prems(2) by simp
  ultimately have "secrets_store (serve uuid4 rs ?s) (uuid4 i) = secrets_store ?s (uuid4 i)"
    by (rule Cons.IH)
  moreover have "secrets_store ?s (uuid4 i) = secrets_store s (uuid4 i)"
    using assms Cons.prems by (intro handle_other) auto
  ultimately show ?case by simp
qed

lemma handle_stays_absent:
  assumes "inj uuid4" "i < uuid_calls s" "secrets_store s (uuid4 i) = None"
  shows "secrets_store (snd (handle uuid4 r s)) (uuid4 i) = None"
proof (cases "r = GET (uuid4 i)")
  case True
  then show ?thesis by (simp add: retrieve_removes)
next
  case False
  with assms show ?thesis by (simp add: handle_other)
qed

lemma serve_stays_absent:
  assumes "inj uuid4"
  shows "i < uuid_calls s \<Longrightarrow> secrets_store s (uuid4 i) = None \<Longrightarrow>
         secrets_store (serve uuid4 reqs s) (uuid4 i) = None"
proof (induction reqs arbitrary: s)
  case Nil
  then show ?case by simp
next
  case (Cons r rs)
  let ?s = "snd (handle uuid4 r s)"
  have "i < uuid_calls ?s" using Cons.prems(1) handle_calls_mono [of s uuid4 r] by simp
  moreover have "secrets_store ?s (uuid4 i) = None"
    using assms Cons.prems by (rule handle_stays_absent)
  ultimately show ?case using Cons.IH by simp
qed

lemma store_inv_initial: "store_inv uuid4 initial"
  by (simp add: store_inv_def initial_def)

lemma store_inv_store: 
  assumes "store_inv uuid4 s"
  shows "store_inv uuid4 (snd (store_secret uuid4 data s))"
proof -
  have weaken: "store_inv uuid4 (s\<lparr>uuid_calls := Suc (uuid_calls s)\<rparr>)"
    using assms unfolding store_inv_def by (auto simp: lessThan_Suc)
  have ins: "store_inv uuid4 (s\<lparr>uuid_calls := Suc (uuid_calls s),
        secrets_store := (secrets_store s)(uuid4 (uuid_calls s) \<mapsto> PDict [(field, v)])\<rparr>)" for v
    using assms unfolding store_inv_def by (auto simp: lessThan_Suc)
  show ?thesis
    using store_cases [of uuid4 data s] assms weaken ins by auto
qed

lemma store_inv_retrieve:
  assumes "store_inv uuid4 s"
  shows "store_inv uuid4 (snd (retrieve_secret k s))"
  using assms unfolding store_inv_def retrieve_secret_def Let_def
  by (auto split: if_splits)

lemma store_inv_handle: "store_inv uuid4 s \<Longrightarrow> store_inv uuid4 (snd (handle uuid4 r s))"
  by (cases r) (simp_all add: store_inv_store store_inv_retrieve)

lemma store_inv_serve: "store_inv uuid4 s \<Longrightarrow> store_inv uuid4 (serve uuid4 reqs s)"
  by (induction reqs arbitrary: s) (simp_all add: store_inv_handle)

lemma store_inv_reachable: "store_inv uuid4 (serve uuid4 reqs initial)"
  by (simp add: store_inv_serve store_inv_initial)

lemma inj_uuid4_example: "inj uuid4_example"
  by (simp add: inj_def uuid4_example_def)

lemma inv_truthy: "store_inv uuid4 s \<Longrightarrow> secrets_store s k = Some v \<Longrightarrow> truthy v"
  unfolding store_inv_def by (metis list.distinct(1) truthy.simps(7))

lemma inv_fresh: 
  assumes "inj uuid4" "store_inv uuid4 s" 
  shows "secrets_store s (uuid4 (uuid_calls s)) = None"
proof (rule ccontr)
  assume "secrets_store s (uuid4 (uuid_calls s)) \<noteq> None"
  then have "uuid4 (uuid_calls s) \<in> dom (secrets_store s)" by auto
  with assms(2) obtain i where "i < uuid_calls s" "uuid4 (uuid_calls s) = uuid4 i"
    unfolding store_inv_def by auto
  with assms(1) show False by (auto dest: injD)
qed

lemma inv_finite: "store_inv uuid4 s \<Longrightarrow> finite (dom (secrets_store s))"
  unfolding store_inv_def by (meson finite_imageI finite_lessThan finite_subset)

lemma not_found_not_ok: "not_found_404 \<noteq> (v, 200)"
  by (simp add: not_found_404_def)

subsection \<open>Where a stored secret comes from, and where it goes\<close>

lemma serve_snoc: "serve uuid4 (rs @ [r]) s = snd (handle uuid4 r (serve uuid4 rs s))"
  by (simp add: serve_append)

lemma store_same_or_new:
  "secrets_store (snd (store_secret uuid4 data s)) = secrets_store s
   \<or> (\<exists>v. py_getitem data field = Inr v
        \<and> fst (store_secret uuid4 data s) = Inr (created_201 (uuid4 (uuid_calls s)))
        \<and> secrets_store (snd (store_secret uuid4 data s))
            = (secrets_store s)(uuid4 (uuid_calls s) \<mapsto> PDict [(field, v)]))"
  using store_cases [of uuid4 data s] by auto

lemma live_origin:
  "secrets_store (serve uuid4 reqs initial) k = Some secret \<Longrightarrow>
   \<exists>pre data post p. reqs = pre @ POST data # post
     \<and> fst (store_secret uuid4 data (serve uuid4 pre initial)) = Inr (created_201 k)
     \<and> py_getitem data field = Inr p \<and> secret = PDict [(field, p)]
     \<and> GET k \<notin> set post"
proof (induction reqs arbitrary: k secret rule: rev_induct)
  case Nil
  then show ?case by (simp add: initial_def)
next
  case (snoc r rs)
  let ?s = "serve uuid4 rs initial"
  have extend: "\<exists>pre data post p. rs @ [r] = pre @ POST data # post
     \<and> fst (store_secret uuid4 data (serve uuid4 pre initial)) = Inr (created_201 k)
     \<and> py_getitem data field = Inr p \<and> secret = PDict [(field, p)]
     \<and> GET k \<notin> set post"
    if old: "secrets_store ?s k = Some secret" and r: "r \<noteq> GET k"
  proof -
    from snoc.IH [OF old] obtain pre data post p where
      "rs = pre @ POST data # post"
      "fst (store_secret uuid4 data (serve uuid4 pre initial)) = Inr (created_201 k)"
      "py_getitem data field = Inr p" "secret = PDict [(field, p)]" "GET k \<notin> set post"
      by blast
    with r have "rs @ [r] = pre @ POST data # (post @ [r])
      \<and> fst (store_secret uuid4 data (serve uuid4 pre initial)) = Inr (created_201 k)
      \<and> py_getitem data field = Inr p \<and> secret = PDict [(field, p)]
      \<and> GET k \<notin> set (post @ [r])"
      by simp
    then show ?thesis by blast
  qed
  from snoc.prems have now: "secrets_store (snd (handle uuid4 r ?s)) k = Some secret"
    by (simp add: serve_snoc)
  show ?case
  proof (cases r)
    case (GET k')
    with now have after: "secrets_store (snd (retrieve_secret k' ?s)) k = Some secret" by simp
    have ne: "k \<noteq> k'"
    proof
      assume "k = k'"
      with after show False by (simp add: retrieve_removes)
    qed
    with after have "secrets_store ?s k = Some secret" by (simp add: retrieve_other)
    moreover from ne GET have "r \<noteq> GET k" by simp
    ultimately show ?thesis by (rule extend)
  next
    case (POST d)
    with now have after: "secrets_store (snd (store_secret uuid4 d ?s)) k = Some secret" by simp
    from POST have rk: "r \<noteq> GET k" by simp
    from store_same_or_new [of uuid4 d ?s] show ?thesis
    proof
      assume "secrets_store (snd (store_secret uuid4 d ?s)) = secrets_store ?s"
      with after have "secrets_store ?s k = Some secret" by simp
      then show ?thesis using rk by (rule extend)
    next
      assume "\<exists>v. py_getitem d field = Inr v
        \<and> fst (store_secret uuid4 d ?s) = Inr (created_201 (uuid4 (uuid_calls ?s)))
        \<and> secrets_store (snd (store_secret uuid4 d ?s))
            = (secrets_store ?s)(uuid4 (uuid_calls ?s) \<mapsto> PDict [(field, v)])"
      then obtain v where v: "py_getitem d field = Inr v"
        and resp: "fst (store_secret uuid4 d ?s) = Inr (created_201 (uuid4 (uuid_calls ?s)))"
        and st: "secrets_store (snd (store_secret uuid4 d ?s))
            = (secrets_store ?s)(uuid4 (uuid_calls ?s) \<mapsto> PDict [(field, v)])"
        by blast
      show ?thesis
      proof (cases "k = uuid4 (uuid_calls ?s)")
        case True
        with after st have "secret = PDict [(field, v)]" by simp
        with True resp v POST have "rs @ [r] = rs @ POST d # []
          \<and> fst (store_secret uuid4 d (serve uuid4 rs initial)) = Inr (created_201 k)
          \<and> py_getitem d field = Inr v \<and> secret = PDict [(field, v)]
          \<and> GET k \<notin> set []"
          by simp
        then show ?thesis by blast
      next
        case False
        with after st have "secrets_store ?s k = Some secret" by simp
        then show ?thesis using rk by (rule extend)
      qed
    qed
  qed
qed

lemma calls_after_accepted:
  assumes "fst (store_secret uuid4 d (serve uuid4 pre initial)) = Inr (created_201 k)"
  shows "uuid_calls (serve uuid4 pre initial) < uuid_calls (serve uuid4 (pre @ POST d # us) initial)"
proof -
  let ?s = "serve uuid4 pre initial"
  from store_created [OF assms]
  have "uuid_calls (snd (store_secret uuid4 d ?s)) = Suc (uuid_calls ?s)" by auto
  moreover have "uuid_calls (snd (store_secret uuid4 d ?s))
      \<le> uuid_calls (serve uuid4 us (snd (store_secret uuid4 d ?s)))"
    by (rule serve_calls_mono)
  ultimately show ?thesis by (simp add: serve_append)
qed

lemma origin_unique:
  assumes inj: "inj uuid4"
    and 1: "reqs = pre1 @ POST d1 # post1"
       "fst (store_secret uuid4 d1 (serve uuid4 pre1 initial)) = Inr (created_201 k)"
    and 2: "reqs = pre2 @ POST d2 # post2"
       "fst (store_secret uuid4 d2 (serve uuid4 pre2 initial)) = Inr (created_201 k)"
  shows "pre1 = pre2"
proof (rule ccontr)
  assume ne: "pre1 \<noteq> pre2"
  from store_created [OF 1(2)] have k1: "k = uuid4 (uuid_calls (serve uuid4 pre1 initial))" by simp
  from store_created [OF 2(2)] have k2: "k = uuid4 (uuid_calls (serve uuid4 pre2 initial))" by simp
  from k1 k2 inj have eq: "uuid_calls (serve uuid4 pre1 initial) = uuid_calls (serve uuid4 pre2 initial)"
    by (auto dest: injD)
  from 1(1) 2(1) have "pre1 @ POST d1 # post1 = pre2 @ POST d2 # post2" by simp
  then obtain us where
    "(pre1 = pre2 @ us \<and> us @ POST d1 # post1 = POST d2 # post2)
     \<or> (pre1 @ us = pre2 \<and> POST d1 # post1 = us @ POST d2 # post2)"
    by (auto simp: append_eq_append_conv2)
  then show False
  proof
    assume a: "pre1 = pre2 @ us \<and> us @ POST d1 # post1 = POST d2 # post2"
    with ne obtain us' where "us = POST d2 # us'" by (cases us) auto
    with a have "pre1 = pre2 @ POST d2 # us'" by simp
    with calls_after_accepted [OF 2(2), of us'] eq show False by simp
  next
    assume a: "pre1 @ us = pre2 \<and> POST d1 # post1 = us @ POST d2 # post2"
    with ne obtain us' where "us = POST d1 # us'" by (cases us) auto
    with a have "pre2 = pre1 @ POST d1 # us'" by simp
    with calls_after_accepted [OF 1(2), of us'] eq show False by simp
  qed
qed

lemma gone_stays_gone:
  assumes inj: "inj uuid4"
    and was: "secrets_store (serve uuid4 pre initial) k \<noteq> None"
    and gone: "secrets_store (serve uuid4 (pre @ mid) initial) k = None"
  shows "secrets_store (serve uuid4 (pre @ mid @ rest) initial) k = None"
proof -
  from was have "k \<in> dom (secrets_store (serve uuid4 pre initial))" by auto
  with store_inv_reachable [of uuid4 pre] obtain i where
    i: "i < uuid_calls (serve uuid4 pre initial)" and k: "k = uuid4 i"
    unfolding store_inv_def by auto
  have "uuid_calls (serve uuid4 pre initial) \<le> uuid_calls (serve uuid4 (pre @ mid) initial)"
    by (simp add: serve_append serve_calls_mono)
  with i have "i < uuid_calls (serve uuid4 (pre @ mid) initial)" by simp
  with inj have "secrets_store (serve uuid4 rest (serve uuid4 (pre @ mid) initial)) (uuid4 i) = None"
    using gone unfolding k by (rule serve_stays_absent)
  then show ?thesis by (simp add: k serve_append)
qed

lemma removal_is_take:
  assumes here: "secrets_store (serve uuid4 reqs initial) k = Some secret"
    and gone: "secrets_store (snd (handle uuid4 r (serve uuid4 reqs initial))) k = None"
  shows "r = GET k \<and> fst (handle uuid4 r (serve uuid4 reqs initial)) = Inr (secret, 200)"
proof -
  let ?s = "serve uuid4 reqs initial"
  have "r = GET k"
  proof (cases r)
    case (GET k')
    show ?thesis
    proof (rule ccontr)
      assume "r \<noteq> GET k"
      with GET have "k \<noteq> k'" by simp
      with gone GET here show False by (simp add: retrieve_other)
    qed
  next
    case (POST d)
    from store_same_or_new [of uuid4 d ?s] gone here POST have False
      by (auto split: if_splits)
    then show ?thesis ..
  qed
  moreover have "truthy secret" using store_inv_reachable here by (rule inv_truthy)
  with here have "fst (retrieve_secret k ?s) = Inr (secret, 200)" by (simp add: retrieve_present)
  ultimately show ?thesis by simp
qed

lemma kept_is_unchanged:
  assumes inj: "inj uuid4"
    and here: "secrets_store (serve uuid4 reqs initial) k = Some secret"
    and kept: "secrets_store (snd (handle uuid4 r (serve uuid4 reqs initial))) k \<noteq> None"
  shows "secrets_store (snd (handle uuid4 r (serve uuid4 reqs initial))) k = Some secret"
proof (cases r)
  case (GET k')
  with kept have "k \<noteq> k'" by (auto simp: retrieve_removes)
  with GET here show ?thesis by (simp add: retrieve_other)
next
  case (POST d)
  let ?s = "serve uuid4 reqs initial"
  have "secrets_store ?s (uuid4 (uuid_calls ?s)) = None"
    using inj store_inv_reachable by (rule inv_fresh)
  with here have "k \<noteq> uuid4 (uuid_calls ?s)" by auto
  with POST here show ?thesis by (simp add: store_other)
qed

lemma take_all_or_nothing:
  "fst (retrieve_secret k s) = Inr not_found_404
   \<or> (\<exists>secret. secrets_store s k = Some secret \<and> fst (retrieve_secret k s) = Inr (secret, 200))"
  by (auto simp: retrieve_secret_def Let_def split: option.splits)

subsection \<open>Retrievals racing for one secret\<close>

lemma retrieve_in_two_steps:
  "retrieve_secret secret_id s
     = (Inr (answer (fst (pop_secret secret_id s))), snd (pop_secret secret_id s))"
  by (simp add: retrieve_secret_def pop_secret_def answer_def Let_def)

lemma won_not_lost: "truthy secret \<Longrightarrow> won secret t \<Longrightarrow> \<not> lost secret_id t"
  by (auto simp: won_def lost_def not_found_404_def)

lemma lost_no_success: "lost secret_id t \<Longrightarrow> \<not> observed_success t"
  by (auto simp: lost_def not_found_404_def)

lemma race_inv_start:
  "secrets_store s secret_id = Some secret \<Longrightarrow>
   race_inv secret_id secret (replicate n (Ready secret_id), s)"
  by (simp add: race_inv_def)

lemma step_length: "step c c' \<Longrightarrow> length (fst c') = length (fst c)"
  by (induction rule: step.induct) simp_all

lemma lost_update:
  assumes "\<forall>j. j < length ts \<and> j \<noteq> w \<longrightarrow> lost secret_id (ts ! j)"
    and "lost secret_id x" and "i < length ts"
  shows "\<forall>j. j < length (ts[i := x]) \<and> j \<noteq> w \<longrightarrow> lost secret_id (ts[i := x] ! j)"
  using assms by (simp add: nth_list_update)

lemma race_inv_pop:
  assumes tr: "truthy secret"
    and inv: "race_inv secret_id secret (ts, s)"
    and i: "i < length ts" and at: "ts ! i = Ready k" and p: "pop_secret k s = (v, s')"
  shows "race_inv secret_id secret (ts[i := Popped v], s')"
proof -
  from inv i at have k: "k = secret_id"
    by (auto simp: race_inv_def won_def lost_def)
  from p have v: "v = (case secrets_store s k of None \<Rightarrow> PNone | Some x \<Rightarrow> x)"
    and s': "secrets_store s' = (secrets_store s)(k := None)"
    by (auto simp: pop_secret_def)
  from inv show ?thesis unfolding race_inv_def
  proof (elim disjE conjE exE)
    assume here: "secrets_store (snd (ts, s)) secret_id = Some secret"
      and all: "\<forall>i. i < length (fst (ts, s)) \<longrightarrow> fst (ts, s) ! i = Ready secret_id"
    from here v k have "v = secret" by simp
    with i all s' k have "secrets_store s' secret_id = None
       \<and> i < length (ts[i := Popped v]) \<and> won secret (ts[i := Popped v] ! i)
       \<and> (\<forall>j. j < length (ts[i := Popped v]) \<and> j \<noteq> i \<longrightarrow> lost secret_id (ts[i := Popped v] ! j))"
      by (simp add: won_def lost_def)
    then show "(secrets_store (snd (ts[i := Popped v], s')) secret_id = Some secret
         \<and> (\<forall>ia. ia < length (fst (ts[i := Popped v], s')) \<longrightarrow> fst (ts[i := Popped v], s') ! ia = Ready secret_id))
      \<or> (secrets_store (snd (ts[i := Popped v], s')) secret_id = None
         \<and> (\<exists>w. w < length (fst (ts[i := Popped v], s')) \<and> won secret (fst (ts[i := Popped v], s') ! w)
               \<and> (\<forall>j. j < length (fst (ts[i := Popped v], s')) \<and> j \<noteq> w \<longrightarrow> lost secret_id (fst (ts[i := Popped v], s') ! j))))"
      by auto
  next
    fix w
    assume gone: "secrets_store (snd (ts, s)) secret_id = None"
      and w: "w < length (fst (ts, s))" and ww: "won secret (fst (ts, s) ! w)"
      and others: "\<forall>j. j < length (fst (ts, s)) \<and> j \<noteq> w \<longrightarrow> lost secret_id (fst (ts, s) ! j)"
    from ww at have iw: "i \<noteq> w" by (auto simp: won_def)
    from gone v k have "v = PNone" by simp
    then have lv: "lost secret_id (Popped v)" by (simp add: lost_def)
    from others have "\<forall>j. j < length ts \<and> j \<noteq> w \<longrightarrow> lost secret_id (ts ! j)" by simp
    then have rest: "\<forall>j. j < length (ts[i := Popped v]) \<and> j \<noteq> w \<longrightarrow> lost secret_id (ts[i := Popped v] ! j)"
      using lv i by (rule lost_update)
    from gone s' k w ww iw have "secrets_store s' secret_id = None
       \<and> w < length (ts[i := Popped v]) \<and> won secret (ts[i := Popped v] ! w)"
      by simp
    with rest have "secrets_store s' secret_id = None
       \<and> w < length (ts[i := Popped v]) \<and> won secret (ts[i := Popped v] ! w)
       \<and> (\<forall>j. j < length (ts[i := Popped v]) \<and> j \<noteq> w \<longrightarrow> lost secret_id (ts[i := Popped v] ! j))"
      by simp
    then show "(secrets_store (snd (ts[i := Popped v], s')) secret_id = Some secret
         \<and> (\<forall>ia. ia < length (fst (ts[i := Popped v], s')) \<longrightarrow> fst (ts[i := Popped v], s') ! ia = Ready secret_id))
      \<or> (secrets_store (snd (ts[i := Popped v], s')) secret_id = None
         \<and> (\<exists>w. w < length (fst (ts[i := Popped v], s')) \<and> won secret (fst (ts[i := Popped v], s') ! w)
               \<and> (\<forall>j. j < length (fst (ts[i := Popped v], s')) \<and> j \<noteq> w \<longrightarrow> lost secret_id (fst (ts[i := Popped v], s') ! j))))"
      by auto
  qed
qed

lemma race_inv_respond:
  assumes tr: "truthy secret"
    and inv: "race_inv secret_id secret (ts, s)"
    and i: "i < length ts" and at: "ts ! i = Popped v"
  shows "race_inv secret_id secret (ts[i := Answered (answer v)], s)"
proof -
  from inv i at obtain w where gone: "secrets_store s secret_id = None"
    and w: "w < length ts" and ww: "won secret (ts ! w)"
    and others: "\<forall>j. j < length ts \<and> j \<noteq> w \<longrightarrow> lost secret_id (ts ! j)"
    by (auto simp: race_inv_def)
  let ?ts = "ts[i := Answered (answer v)]"
  have "won secret (?ts ! w) \<and> (\<forall>j. j < length ?ts \<and> j \<noteq> w \<longrightarrow> lost secret_id (?ts ! j))"
  proof (cases "i = w")
    case True
    with ww at have "v = secret" by (simp add: won_def)
    with tr have "answer v = (secret, 200)" by (simp add: answer_def)
    with True w others show ?thesis by (simp add: won_def nth_list_update)
  next
    case False
    with i others at have "v = PNone" by (auto simp: lost_def)
    then have "answer v = not_found_404" by (simp add: answer_def)
    then have "lost secret_id (Answered (answer v))" by (simp add: lost_def)
    with others have "\<forall>j. j < length ?ts \<and> j \<noteq> w \<longrightarrow> lost secret_id (?ts ! j)"
      using i by (rule lost_update)
    with False ww show ?thesis by simp
  qed
  with gone w show ?thesis by (auto simp: race_inv_def)
qed

lemma race_inv_step:
  "step c c' \<Longrightarrow> truthy secret \<Longrightarrow> race_inv secret_id secret c \<Longrightarrow> race_inv secret_id secret c'"
  by (induction rule: step.induct) (simp_all add: race_inv_pop race_inv_respond)

lemma race_inv_steps:
  "rtranclp step c c' \<Longrightarrow> truthy secret \<Longrightarrow> race_inv secret_id secret c \<Longrightarrow>
   race_inv secret_id secret c' \<and> length (fst c') = length (fst c)"
  by (induction rule: rtranclp_induct) (auto intro: race_inv_step simp: step_length)

lemma advance_steps: "rtranclp step c (advance i c)"
proof (cases c)
  case (Pair ts s)
  show ?thesis
  proof (cases "i < length ts")
    case False
    with Pair show ?thesis by simp
  next
    case True
    show ?thesis
    proof (cases "ts ! i")
      case (Ready k)
      have "pop_secret k s = (fst (pop_secret k s), snd (pop_secret k s))" by simp
      with True Ready
      have "step (ts, s) (ts[i := Popped (fst (pop_secret k s))], snd (pop_secret k s))"
        by (rule step.pop)
      with Pair True Ready show ?thesis by simp
    next
      case (Popped v)
      with True have "step (ts, s) (ts[i := Answered (answer v)], s)" by (rule step.respond)
      with Pair True Popped show ?thesis by simp
    next
      case (Answered r)
      with Pair True show ?thesis by simp
    qed
  qed
qed

lemma interleave_steps: "rtranclp step c (interleave sched c)"
proof (induction sched arbitrary: c)
  case Nil
  show ?case by simp
next
  case (Cons i sched)
  have "rtranclp step c (advance i c)" by (rule advance_steps)
  moreover have "rtranclp step (advance i c) (interleave sched (advance i c))" by (rule Cons.IH)
  ultimately show ?case by simp
qed

lemma advance_length: "length (fst (advance k c)) = length (fst c)"
  by (cases c) (simp split: thread.splits)

lemma advance_left:
  "i < length (fst c) \<Longrightarrow>
   steps_left (fst (advance k c) ! i) = steps_left (fst c ! i) - (if k = i then 1 else 0)"
  by (cases c) (auto simp: nth_list_update split: thread.splits)

lemma interleave_left:
  "i < length (fst c) \<Longrightarrow>
   steps_left (fst (interleave sched c) ! i) = steps_left (fst c ! i) - count_list sched i"
proof (induction sched arbitrary: c)
  case Nil
  show ?case by simp
next
  case (Cons k sched)
  from Cons.prems have "i < length (fst (advance k c))" by (simp add: advance_length)
  then have "steps_left (fst (interleave sched (advance k c)) ! i)
      = steps_left (fst (advance k c) ! i) - count_list sched i"
    by (rule Cons.IH)
  with Cons.prems show ?case by (simp add: advance_left)
qed

lemma is_answered_left: "is_answered t = (steps_left t = 0)"
  by (cases t) simp_all

lemma fair_schedule_answers:
  assumes "\<forall>i<n. 2 \<le> count_list sched i" and "i < n"
  shows "is_answered (fst (interleave sched (replicate n (Ready secret_id), s)) ! i)"
proof -
  from assms(2) have "steps_left (fst (interleave sched (replicate n (Ready secret_id), s)) ! i)
      = 2 - count_list sched i"
    using interleave_left [of i "(replicate n (Ready secret_id), s)" sched] by simp
  with assms show ?thesis by (simp add: is_answered_left)
qed

lemma race_one_winner:
  assumes tr: "truthy secret" and inv: "race_inv secret_id secret (ts, s)"
  shows "card {i. i < length ts \<and> observed_success (ts ! i)} \<le> 1"
proof -
  from inv have "(\<forall>i. i < length ts \<longrightarrow> ts ! i = Ready secret_id)
     \<or> (\<exists>w. w < length ts \<and> (\<forall>j. j < length ts \<and> j \<noteq> w \<longrightarrow> lost secret_id (ts ! j)))"
    by (auto simp: race_inv_def)
  then show ?thesis
  proof
    assume "\<forall>i. i < length ts \<longrightarrow> ts ! i = Ready secret_id"
    then have "{i. i < length ts \<and> observed_success (ts ! i)} = {}" by auto
    then have "card {i. i < length ts \<and> observed_success (ts ! i)} = card ({} :: nat set)"
      by (rule arg_cong)
    then have "card {i. i < length ts \<and> observed_success (ts ! i)} = 0"
      by (simp only: card.empty)
    then show ?thesis by linarith
  next
    assume "\<exists>w. w < length ts \<and> (\<forall>j. j < length ts \<and> j \<noteq> w \<longrightarrow> lost secret_id (ts ! j))"
    then obtain w where "\<forall>j. j < length ts \<and> j \<noteq> w \<longrightarrow> lost secret_id (ts ! j)" by blast
    then have "{i. i < length ts \<and> observed_success (ts ! i)} \<subseteq> {w}"
      by (auto dest: lost_no_success)
    then have "card {i. i < length ts \<and> observed_success (ts ! i)} \<le> card {w}"
      by (intro card_mono) simp_all
    then show ?thesis by simp
  qed
qed

lemma race_answers:
  assumes inv: "race_inv secret_id secret (ts, s)" and i: "i < length ts"
    and a: "ts ! i = Answered r"
  shows "r = (secret, 200) \<or> r = not_found_404"
proof -
  from inv i a obtain w where w: "won secret (ts ! w)"
    and others: "\<forall>j. j < length ts \<and> j \<noteq> w \<longrightarrow> lost secret_id (ts ! j)"
    by (auto simp: race_inv_def)
  show ?thesis
  proof (cases "i = w")
    case True
    with w a show ?thesis by (simp add: won_def)
  next
    case False
    with others i a show ?thesis by (auto simp: lost_def)
  qed
qed

lemma race_all_answered:
  assumes tr: "truthy secret" and inv: "race_inv secret_id secret (ts, s)"
    and n: "0 < length ts" and all: "\<forall>i<length ts. is_answered (ts ! i)"
  shows "card {i. i < length ts \<and> ts ! i = Answered (secret, 200)} = 1
       \<and> card {i. i < length ts \<and> ts ! i = Answered not_found_404} = length ts - 1"
proof -
  from all n have "is_answered (ts ! 0)" by simp
  then have "ts ! 0 \<noteq> Ready secret_id" by auto
  with inv n obtain w where wl: "w < length ts" and w: "won secret (ts ! w)"
    and others: "\<forall>j. j < length ts \<and> j \<noteq> w \<longrightarrow> lost secret_id (ts ! j)"
    by (auto simp: race_inv_def)
  from all wl have "is_answered (ts ! w)" by simp
  with w have ww: "ts ! w = Answered (secret, 200)" by (auto simp: won_def)
  have ll: "ts ! j = Answered not_found_404" if "j < length ts" "j \<noteq> w" for j
  proof -
    from that others have "lost secret_id (ts ! j)" by simp
    moreover from all that have "is_answered (ts ! j)" by simp
    ultimately show ?thesis by (auto simp: lost_def)
  qed
  have ne: "(secret, 200) \<noteq> not_found_404" by (simp add: not_found_404_def)
  have only: "x = w" if "x < length ts" "ts ! x = Answered (secret, 200)" for x
  proof (rule ccontr)
    assume "x \<noteq> w"
    with that(1) have "ts ! x = Answered not_found_404" by (rule ll)
    with that(2) ne show False by simp
  qed
  have "{i. i < length ts \<and> ts ! i = Answered (secret, 200)} = {w}"
  proof (rule set_eqI)
    fix x
    show "x \<in> {i. i < length ts \<and> ts ! i = Answered (secret, 200)} \<longleftrightarrow> x \<in> {w}"
      using wl ww only [of x] by auto
  qed
  then have one: "card {i. i < length ts \<and> ts ! i = Answered (secret, 200)} = 1" by simp
  have "{i. i < length ts \<and> ts ! i = Answered not_found_404} = {..<length ts} - {w}"
  proof (rule set_eqI)
    fix x
    show "x \<in> {i. i < length ts \<and> ts ! i = Answered not_found_404} \<longleftrightarrow> x \<in> {..<length ts} - {w}"
      using ww ne ll [of x] by auto
  qed
  then have "card {i. i < length ts \<and> ts ! i = Answered not_found_404} = card ({..<length ts} - {w})"
    by (rule arg_cong)
  with wl have "card {i. i < length ts \<and> ts ! i = Answered not_found_404} = length ts - 1"
    by simp
  with one show ?thesis by simp
qed

lemmas example_defs = store_secret_def retrieve_secret_def Let_def field_def created_201_def
  not_found_404_def required_400_def initial_def uuid4_example_def

section \<open>The claims\<close>

text \<open>
  Claim C1 (single delivery, sequential). Let the generator never repeat an identifier,
  let \<^verbatim>\<open>store_secret\<close> answer 201 with \<open>secret_id\<close> for a body whose field holds \<open>p\<close>, and
  let any requests follow that do not retrieve \<open>secret_id\<close>. Then the first
  \<^verbatim>\<open>retrieve_secret\<close> of \<open>secret_id\<close> answers 200 with \<open>p\<close> under the field, and after it,
  whatever requests come in between, every \<^verbatim>\<open>retrieve_secret\<close> of \<open>secret_id\<close> answers the
  404 "not found".
\<close>

theorem single_delivery:
  assumes "inj uuid4"
    and "fst (store_secret uuid4 data s) = Inr (created_201 secret_id)"
    and "py_getitem data field = Inr p"
    and "GET secret_id \<notin> set before"
  shows "fst (retrieve_secret secret_id (serve uuid4 before (snd (store_secret uuid4 data s))))
           = Inr (PDict [(field, p)], 200)
       \<and> fst (retrieve_secret secret_id
               (serve uuid4 later
                  (snd (retrieve_secret secret_id
                     (serve uuid4 before (snd (store_secret uuid4 data s)))))))
           = Inr not_found_404"
proof -
  let ?n = "uuid_calls s"
  let ?s1 = "snd (store_secret uuid4 data s)"
  let ?s2 = "serve uuid4 before ?s1"
  let ?s3 = "snd (retrieve_secret secret_id ?s2)"
  from store_created [OF assms(2)] assms(3)
  have id: "secret_id = uuid4 ?n"
    and s1: "?s1 = s\<lparr>uuid_calls := Suc ?n,
                      secrets_store := (secrets_store s)(secret_id \<mapsto> PDict [(field, p)])\<rparr>"
    by auto
  have n1: "?n < uuid_calls ?s1" by (simp add: s1)
  have "secrets_store ?s2 (uuid4 ?n) = secrets_store ?s1 (uuid4 ?n)"
    using assms(1) n1 assms(4) unfolding id by (rule serve_other)
  then have present: "secrets_store ?s2 secret_id = Some (PDict [(field, p)])"
    using id s1 by simp
  have first: "fst (retrieve_secret secret_id ?s2) = Inr (PDict [(field, p)], 200)"
    using present by (simp add: retrieve_present)
  have n3: "?n < uuid_calls ?s3"
    using n1 serve_calls_mono [of ?s1 uuid4 before] by (simp add: retrieve_calls)
  have "secrets_store ?s3 (uuid4 ?n) = None"
    unfolding id [symmetric] by (rule retrieve_removes)
  with assms(1) n3 have "secrets_store (serve uuid4 later ?s3) (uuid4 ?n) = None"
    by (rule serve_stays_absent)
  then have "fst (retrieve_secret secret_id (serve uuid4 later ?s3)) = Inr not_found_404"
    unfolding id by (simp add: retrieve_absent)
  with first show ?thesis by simp
qed

text \<open>
  The instance of C1 at the scenario of the specification: \<^verbatim>\<open>hello-cipher\<close> is stored first,
  another secret is stored and a foreign identifier is asked for, then the secret is read
  once and is gone.
\<close>

theorem single_delivery_witness:
  "inj uuid4_example
   \<and> fst (store_secret uuid4_example (PDict [(''encrypted_data'', PStr ''hello-cipher'')]) initial)
       = Inr (created_201 ''u'')
   \<and> py_getitem (PDict [(''encrypted_data'', PStr ''hello-cipher'')]) field = Inr (PStr ''hello-cipher'')
   \<and> GET ''u'' \<notin> set [POST (PDict [(''encrypted_data'', PStr ''other'')]), GET ''uu'']
   \<and> fst (retrieve_secret ''u''
        (serve uuid4_example [POST (PDict [(''encrypted_data'', PStr ''other'')]), GET ''uu'']
           (snd (store_secret uuid4_example (PDict [(''encrypted_data'', PStr ''hello-cipher'')]) initial))))
       = Inr (PDict [(field, PStr ''hello-cipher'')], 200)
   \<and> fst (retrieve_secret ''u''
        (serve uuid4_example [GET ''u'', POST (PDict [(''encrypted_data'', PStr ''third'')])]
          (snd (retrieve_secret ''u''
            (serve uuid4_example [POST (PDict [(''encrypted_data'', PStr ''other'')]), GET ''uu'']
              (snd (store_secret uuid4_example (PDict [(''encrypted_data'', PStr ''hello-cipher'')]) initial)))))))
       = Inr not_found_404"
  using single_delivery [of uuid4_example "PDict [(''encrypted_data'', PStr ''hello-cipher'')]"
      initial "''u''" "PStr ''hello-cipher''"
      "[POST (PDict [(''encrypted_data'', PStr ''other'')]), GET ''uu'']"
      "[GET ''u'', POST (PDict [(''encrypted_data'', PStr ''third'')])]"]
    inj_uuid4_example
  by (simp add: example_defs)

text \<open>
  Claim C10 (every parsed body gives a 201 or a 400, no exception). The handler raises
  on two kinds of body. The list \<^verbatim>\<open>["encrypted_data"]\<close> is true and has the field as an
  element, so the guard lets it through and the subscript on line 25 raises
  \<^verbatim>\<open>TypeError\<close>. The number \<^verbatim>\<open>5\<close> is true and the membership test on line 21 itself
  raises \<^verbatim>\<open>TypeError\<close>.
\<close>

theorem store_secret_raises_on_non_object:
  "fst (store_secret uuid4 (PList [PStr ''encrypted_data'']) s) = Inl TypeError
   \<and> fst (store_secret uuid4 (PInt 5) s) = Inl TypeError"
  by (simp add: store_secret_def field_def)

text \<open>
  Claim C2 (an empty payload or a missing field is rejected with 400 and nothing changes).
  The first half fails on the code: the guard on line 21 asks only whether the key is in
  the body. On the fresh store the body \<^verbatim>\<open>{"encrypted_data": ""}\<close> is answered 201, an
  identifier is drawn and the empty string is stored under it.
\<close>

theorem empty_payload_accepted:
  "fst (store_secret uuid4_example (PDict [(''encrypted_data'', PStr '''')]) initial)
     = Inr (created_201 ''u'')
   \<and> fst (store_secret uuid4_example (PDict [(''encrypted_data'', PStr '''')]) initial)
     \<noteq> Inr required_400
   \<and> secrets_store initial ''u'' = None
   \<and> secrets_store (snd (store_secret uuid4_example (PDict [(''encrypted_data'', PStr '''')]) initial)) ''u''
     = Some (PDict [(''encrypted_data'', PStr '''')])
   \<and> uuid_calls (snd (store_secret uuid4_example (PDict [(''encrypted_data'', PStr '''')]) initial)) = 1"
  by (simp add: example_defs)

text \<open>
  Claim C2 as amended: a body that is \<^verbatim>\<open>null\<close>, or an object without the key
  \<^verbatim>\<open>encrypted_data\<close>, is answered 400 "encrypted_data is required"; no identifier is drawn
  and the store is as it was (the whole state is returned unchanged).
\<close>

theorem missing_field_rejected:
  "store_secret uuid4 PNone s = (Inr required_400, s)
   \<and> (field \<notin> set (map fst kvs) \<longrightarrow> store_secret uuid4 (PDict kvs) s = (Inr required_400, s))"
  by (simp add: store_secret_def)

text \<open>The amended C2 at the body \<^verbatim>\<open>{"note": "x"}\<close> and at \<^verbatim>\<open>null\<close>, on the fresh store.\<close>

theorem missing_field_rejected_witness:
  "store_secret uuid4_example PNone initial = (Inr required_400, initial)
   \<and> field \<notin> set (map fst [(''note'', PStr ''x'')])
   \<and> store_secret uuid4_example (PDict [(''note'', PStr ''x'')]) initial = (Inr required_400, initial)"
  using missing_field_rejected [of uuid4_example initial "[(''note'', PStr ''x'')]"]
  by (simp add: field_def)

text \<open>
  Claim C9 (only the presence of the key is validated). For every object body that has
  the key \<^verbatim>\<open>encrypted_data\<close>, with whatever value \<open>v\<close> under it, \<^verbatim>\<open>store_secret\<close> answers 201
  with the identifier just drawn and stores \<open>v\<close> as it is; a later \<^verbatim>\<open>retrieve_secret\<close> of
  that identifier, after any requests that do not retrieve it, answers 200 with exactly
  \<open>v\<close> under the field. The generator is taken never to repeat an identifier.
\<close>

theorem key_presence_only:
  assumes "inj uuid4"
    and "map_of kvs field = Some v"
    and "GET (uuid4 (uuid_calls s)) \<notin> set reqs"
  shows "fst (store_secret uuid4 (PDict kvs) s) = Inr (created_201 (uuid4 (uuid_calls s)))
       \<and> secrets_store (snd (store_secret uuid4 (PDict kvs) s)) (uuid4 (uuid_calls s))
           = Some (PDict [(field, v)])
       \<and> fst (retrieve_secret (uuid4 (uuid_calls s))
               (serve uuid4 reqs (snd (store_secret uuid4 (PDict kvs) s))))
           = Inr (PDict [(field, v)], 200)"
proof -
  let ?k = "uuid4 (uuid_calls s)"
  let ?s1 = "snd (store_secret uuid4 (PDict kvs) s)"
  note acc = store_accept [OF assms(2), of uuid4 s]
  have resp: "fst (store_secret uuid4 (PDict kvs) s) = Inr (created_201 ?k)"
    by (simp add: acc)
  have stored: "secrets_store ?s1 ?k = Some (PDict [(field, v)])"
    by (simp add: acc)
  have "uuid_calls s < uuid_calls ?s1" by (simp add: acc)
  with assms(1) have "secrets_store (serve uuid4 reqs ?s1) ?k = secrets_store ?s1 ?k"
    using assms(3) by (rule serve_other)
  with stored have "fst (retrieve_secret ?k (serve uuid4 reqs ?s1)) = Inr (PDict [(field, v)], 200)"
    by (simp add: retrieve_present)
  with resp stored show ?thesis by simp
qed

text \<open>
  C9 at the empty string (with another request in between) and at \<^verbatim>\<open>null\<close> (read back at
  once).
\<close>

theorem key_presence_only_witness:
  "inj uuid4_example
   \<and> map_of [(''encrypted_data'', PStr ''''), (''note'', PInt 7)] field = Some (PStr '''')
   \<and> map_of [(''encrypted_data'', PNone)] field = Some PNone
   \<and> GET (uuid4_example (uuid_calls initial)) \<notin> set [POST (PDict [(''encrypted_data'', PNone)])]
   \<and> fst (store_secret uuid4_example (PDict [(''encrypted_data'', PStr ''''), (''note'', PInt 7)]) initial)
       = Inr (created_201 ''u'')
   \<and> fst (retrieve_secret ''u''
        (serve uuid4_example [POST (PDict [(''encrypted_data'', PNone)])]
          (snd (store_secret uuid4_example (PDict [(''encrypted_data'', PStr ''''), (''note'', PInt 7)]) initial))))
       = Inr (PDict [(''encrypted_data'', PStr '''')], 200)
   \<and> fst (retrieve_secret ''u''
        (snd (store_secret uuid4_example (PDict [(''encrypted_data'', PNone)]) initial)))
       = Inr (PDict [(''encrypted_data'', PNone)], 200)"
  using key_presence_only [of uuid4_example "[(''encrypted_data'', PStr ''''), (''note'', PInt 7)]"
      "PStr ''''" initial "[POST (PDict [(''encrypted_data'', PNone)])]"]
    key_presence_only [of uuid4_example "[(''encrypted_data'', PNone)]" PNone initial "[]"]
    inj_uuid4_example
  by (simp add: example_defs)

text \<open>
  Claim C7 (the two kinds of failing retrieval cannot be told apart). In a state the server
  reaches, a retrieval of an identifier that was never drawn, and in any state a second
  retrieval of an identifier right after its successful one, get the same response: the
  404 with the one fixed message.
\<close>

theorem not_found_indistinguishable:
  assumes "never_issued \<notin> uuid4 ` {..<uuid_calls (serve uuid4 reqs initial)}"
    and "fst (retrieve_secret viewed t) = Inr (secret, 200)"
  shows "fst (retrieve_secret never_issued (serve uuid4 reqs initial))
           = fst (retrieve_secret viewed (snd (retrieve_secret viewed t)))
       \<and> fst (retrieve_secret viewed (snd (retrieve_secret viewed t))) = Inr not_found_404"
proof -
  have "dom (secrets_store (serve uuid4 reqs initial))
          \<subseteq> uuid4 ` {..<uuid_calls (serve uuid4 reqs initial)}"
    using store_inv_reachable [of uuid4 reqs] by (simp add: store_inv_def)
  with assms(1) have "secrets_store (serve uuid4 reqs initial) never_issued = None"
    by blast
  then have a: "fst (retrieve_secret never_issued (serve uuid4 reqs initial)) = Inr not_found_404"
    by (simp add: retrieve_absent)
  have "fst (retrieve_secret viewed (snd (retrieve_secret viewed t))) = Inr not_found_404"
    by (simp add: retrieve_absent retrieve_removes)
  with a show ?thesis by simp
qed

text \<open>C7 after one stored secret: the unknown \<^verbatim>\<open>never\<close> against the identifier viewed twice.\<close>

theorem not_found_indistinguishable_witness:
  "''never'' \<notin> uuid4_example `
       {..<uuid_calls (serve uuid4_example [POST (PDict [(''encrypted_data'', PStr ''a'')])] initial)}
   \<and> fst (retrieve_secret ''u'' (serve uuid4_example [POST (PDict [(''encrypted_data'', PStr ''a'')])] initial))
       = Inr (PDict [(''encrypted_data'', PStr ''a'')], 200)
   \<and> fst (retrieve_secret ''never'' (serve uuid4_example [POST (PDict [(''encrypted_data'', PStr ''a'')])] initial))
       = Inr not_found_404
   \<and> fst (retrieve_secret ''u'' (snd (retrieve_secret ''u''
        (serve uuid4_example [POST (PDict [(''encrypted_data'', PStr ''a'')])] initial))))
       = Inr not_found_404"
  using not_found_indistinguishable [of "''never''" uuid4_example
      "[POST (PDict [(''encrypted_data'', PStr ''a'')])]" "''u''"
      "serve uuid4_example [POST (PDict [(''encrypted_data'', PStr ''a'')])] initial"
      "PDict [(''encrypted_data'', PStr ''a'')]"]
  by (simp add: example_defs lessThan_Suc)

text \<open>
  Claim C3 (a failed call changes nothing). A retrieval of an identifier that is not in
  the store answers the 404 and returns the state as it was. In every state the server
  reaches, a retrieval that answers the 404 returns the state as it was. A
  \<^verbatim>\<open>store_secret\<close> that answers the 400 returns the state as it was, and one that raises
  leaves the store as it was.
\<close>

theorem failed_calls_change_nothing:
  "(secrets_store s secret_id = None \<longrightarrow> retrieve_secret secret_id s = (Inr not_found_404, s))
   \<and> (fst (retrieve_secret k (serve uuid4 reqs initial)) = Inr not_found_404 \<longrightarrow>
        snd (retrieve_secret k (serve uuid4 reqs initial)) = serve uuid4 reqs initial)
   \<and> (fst (store_secret gen data t) = Inr required_400 \<longrightarrow> snd (store_secret gen data t) = t)
   \<and> (fst (store_secret gen' data' t') = Inl e \<longrightarrow>
        secrets_store (snd (store_secret gen' data' t')) = secrets_store t')"
proof -
  let ?r = "serve uuid4 reqs initial"
  have one: "secrets_store s secret_id = None \<longrightarrow> retrieve_secret secret_id s = (Inr not_found_404, s)"
    by (simp add: retrieve_absent)
  have two: "snd (retrieve_secret k ?r) = ?r" if nf: "fst (retrieve_secret k ?r) = Inr not_found_404"
  proof (cases "secrets_store ?r k")
    case None
    then show ?thesis by (simp add: retrieve_absent)
  next
    case (Some v)
    have "truthy v" using store_inv_reachable Some by (rule inv_truthy)
    with Some have "fst (retrieve_secret k ?r) = Inr (v, 200)" by (simp add: retrieve_present)
    with nf not_found_not_ok [of v] show ?thesis by simp
  qed
  have three: "fst (store_secret gen data t) = Inr required_400 \<longrightarrow> snd (store_secret gen data t) = t"
    using store_cases [of gen data t] by (auto simp: created_not_required)
  have four: "fst (store_secret gen' data' t') = Inl e \<longrightarrow>
        secrets_store (snd (store_secret gen' data' t')) = secrets_store t'"
    using store_cases [of gen' data' t'] by auto
  from one two three four show ?thesis by blast
qed

text \<open>
  C3 at \<^verbatim>\<open>not-a-real-id\<close> on the fresh store, at an identifier already viewed, at a body
  without the field, and at a body that makes the handler raise.
\<close>

theorem failed_calls_change_nothing_witness:
  "secrets_store initial ''not-a-real-id'' = None
   \<and> retrieve_secret ''not-a-real-id'' initial = (Inr not_found_404, initial)
   \<and> fst (retrieve_secret ''u'' (serve uuid4_example [POST (PDict [(''encrypted_data'', PStr ''a'')]), GET ''u''] initial))
       = Inr not_found_404
   \<and> snd (retrieve_secret ''u'' (serve uuid4_example [POST (PDict [(''encrypted_data'', PStr ''a'')]), GET ''u''] initial))
       = serve uuid4_example [POST (PDict [(''encrypted_data'', PStr ''a'')]), GET ''u''] initial
   \<and> fst (store_secret uuid4_example (PDict [(''note'', PStr ''x'')]) initial) = Inr required_400
   \<and> snd (store_secret uuid4_example (PDict [(''note'', PStr ''x'')]) initial) = initial
   \<and> fst (store_secret uuid4_example (PList [PStr ''encrypted_data'']) initial) = Inl TypeError
   \<and> secrets_store (snd (store_secret uuid4_example (PList [PStr ''encrypted_data'']) initial))
       = secrets_store initial"
  using failed_calls_change_nothing [of initial "''not-a-real-id''" "''u''" uuid4_example
      "[POST (PDict [(''encrypted_data'', PStr ''a'')]), GET ''u'']" uuid4_example
      "PDict [(''note'', PStr ''x'')]" initial uuid4_example "PList [PStr ''encrypted_data'']"
      initial TypeError]
  by (simp add: example_defs)

text \<open>
  Claim C4 (no cross-talk). Let the generator never repeat an identifier, and let two
  successive calls of \<^verbatim>\<open>store_secret\<close> answer 201, the first with \<open>id_a\<close> for the payload
  \<open>a\<close>, the second with \<open>id_b\<close> for the payload \<open>b\<close>. Then the identifiers differ, the
  retrieval of \<open>id_b\<close> answers 200 with \<open>b\<close> (so not with \<open>a\<close>, when the payloads differ),
  and the retrieval of \<open>id_a\<close> after it still answers 200 with \<open>a\<close>.
\<close>

theorem no_cross_talk:
  assumes "inj uuid4"
    and "fst (store_secret uuid4 data_a s) = Inr (created_201 id_a)"
    and "fst (store_secret uuid4 data_b (snd (store_secret uuid4 data_a s))) = Inr (created_201 id_b)"
    and "py_getitem data_a field = Inr a"
    and "py_getitem data_b field = Inr b"
  shows "id_a \<noteq> id_b
       \<and> fst (retrieve_secret id_b (snd (store_secret uuid4 data_b (snd (store_secret uuid4 data_a s)))))
           = Inr (PDict [(field, b)], 200)
       \<and> (a \<noteq> b \<longrightarrow>
            fst (retrieve_secret id_b (snd (store_secret uuid4 data_b (snd (store_secret uuid4 data_a s)))))
              \<noteq> Inr (PDict [(field, a)], 200))
       \<and> fst (retrieve_secret id_a
               (snd (retrieve_secret id_b
                  (snd (store_secret uuid4 data_b (snd (store_secret uuid4 data_a s)))))))
           = Inr (PDict [(field, a)], 200)"
proof -
  let ?n = "uuid_calls s"
  let ?s1 = "snd (store_secret uuid4 data_a s)"
  let ?s2 = "snd (store_secret uuid4 data_b ?s1)"
  from store_created [OF assms(2)] obtain va where
    ida: "id_a = uuid4 ?n" and ga: "py_getitem data_a field = Inr va"
    and s1': "?s1 = s\<lparr>uuid_calls := Suc ?n,
                      secrets_store := (secrets_store s)(id_a \<mapsto> PDict [(field, va)])\<rparr>"
    by blast
  from ga assms(4) have "va = a" by simp
  with s1' have st1: "secrets_store ?s1 = (secrets_store s)(id_a \<mapsto> PDict [(field, a)])"
    and n1: "uuid_calls ?s1 = Suc ?n" by simp_all
  from store_created [OF assms(3)] obtain vb where
    idb: "id_b = uuid4 (uuid_calls ?s1)" and gb: "py_getitem data_b field = Inr vb"
    and s2': "?s2 = ?s1\<lparr>uuid_calls := Suc (uuid_calls ?s1),
                      secrets_store := (secrets_store ?s1)(id_b \<mapsto> PDict [(field, vb)])\<rparr>"
    by blast
  from gb assms(5) have "vb = b" by simp
  with arg_cong [OF s2', of secrets_store]
  have "secrets_store ?s2 = (secrets_store ?s1)(id_b \<mapsto> PDict [(field, b)])"
    by simp
  then have st2: "secrets_store ?s2 = (secrets_store s)(id_a \<mapsto> PDict [(field, a)], id_b \<mapsto> PDict [(field, b)])"
    by (simp only: st1)
  have "?n \<noteq> Suc ?n" by simp
  with assms(1) have "uuid4 ?n \<noteq> uuid4 (Suc ?n)" by (simp add: inj_eq)
  then have neq: "id_a \<noteq> id_b" by (simp add: ida idb n1)
  have "secrets_store ?s2 id_b = Some (PDict [(field, b)])"
    by (simp only: st2 fun_upd_same)
  then have tb: "fst (retrieve_secret id_b ?s2) = Inr (PDict [(field, b)], 200)"
    by (rule retrieve_present [THEN arg_cong [where f = fst], simplified]) simp
  have "secrets_store ?s2 id_a = Some (PDict [(field, a)])"
    using neq by (simp add: st2)
  then have "secrets_store (snd (retrieve_secret id_b ?s2)) id_a = Some (PDict [(field, a)])"
    using neq by (simp add: retrieve_other)
  then have ta: "fst (retrieve_secret id_a (snd (retrieve_secret id_b ?s2))) = Inr (PDict [(field, a)], 200)"
    by (rule retrieve_present [THEN arg_cong [where f = fst], simplified]) simp
  from tb have nb: "a \<noteq> b \<longrightarrow> fst (retrieve_secret id_b ?s2) \<noteq> Inr (PDict [(field, a)], 200)"
    by simp
  from neq tb nb ta show ?thesis by (intro conjI)
qed

text \<open>C4 at the second scenario of the specification: \<^verbatim>\<open>a\<close> and \<^verbatim>\<open>b\<close> on the fresh store.\<close>

theorem no_cross_talk_witness:
  "inj uuid4_example
   \<and> fst (store_secret uuid4_example (PDict [(''encrypted_data'', PStr ''a'')]) initial)
       = Inr (created_201 ''u'')
   \<and> fst (store_secret uuid4_example (PDict [(''encrypted_data'', PStr ''b'')])
        (snd (store_secret uuid4_example (PDict [(''encrypted_data'', PStr ''a'')]) initial)))
       = Inr (created_201 ''uu'')
   \<and> py_getitem (PDict [(''encrypted_data'', PStr ''a'')]) field = Inr (PStr ''a'')
   \<and> py_getitem (PDict [(''encrypted_data'', PStr ''b'')]) field = Inr (PStr ''b'')
   \<and> ''u'' \<noteq> ''uu''
   \<and> fst (retrieve_secret ''uu''
        (snd (store_secret uuid4_example (PDict [(''encrypted_data'', PStr ''b'')])
          (snd (store_secret uuid4_example (PDict [(''encrypted_data'', PStr ''a'')]) initial)))))
       = Inr (PDict [(field, PStr ''b'')], 200)
   \<and> fst (retrieve_secret ''u''
        (snd (retrieve_secret ''uu''
          (snd (store_secret uuid4_example (PDict [(''encrypted_data'', PStr ''b'')])
            (snd (store_secret uuid4_example (PDict [(''encrypted_data'', PStr ''a'')]) initial)))))))
       = Inr (PDict [(field, PStr ''a'')], 200)"
  using no_cross_talk [of uuid4_example "PDict [(''encrypted_data'', PStr ''a'')]" initial "''u''"
      "PDict [(''encrypted_data'', PStr ''b'')]" "''uu''" "PStr ''a''" "PStr ''b''"]
    inj_uuid4_example
  by (simp add: example_defs)

text \<open>
  Claim C5 (what a successful put does). Let the generator never repeat an identifier and
  let \<open>s\<close> be a state the server reaches. When \<^verbatim>\<open>store_secret\<close> answers 201 with
  \<open>secret_id\<close>, that identifier was not in the store, the keys of the new store are the old
  keys and \<open>secret_id\<close>, their number is one more, every old entry is as it was, and the
  retrieval of \<open>secret_id\<close> right after answers 200.
\<close>

theorem put_adds_one_entry:
  assumes "inj uuid4"
    and "s = serve uuid4 reqs initial"
    and "store_secret uuid4 data s = (Inr (created_201 secret_id), s')"
  shows "secrets_store s secret_id = None
       \<and> dom (secrets_store s') = insert secret_id (dom (secrets_store s))
       \<and> card (dom (secrets_store s')) = Suc (card (dom (secrets_store s)))
       \<and> (\<forall>k \<in> dom (secrets_store s). secrets_store s' k = secrets_store s k)
       \<and> (\<exists>secret. fst (retrieve_secret secret_id s') = Inr (secret, 200))"
proof -
  have inv: "store_inv uuid4 s" using assms(2) by (simp add: store_inv_reachable)
  from assms(3) have resp: "fst (store_secret uuid4 data s) = Inr (created_201 secret_id)"
    and s': "s' = snd (store_secret uuid4 data s)" by simp_all
  from store_created [OF resp] obtain v where
    id: "secret_id = uuid4 (uuid_calls s)"
    and upd: "s' = s\<lparr>uuid_calls := Suc (uuid_calls s),
                    secrets_store := (secrets_store s)(secret_id \<mapsto> PDict [(field, v)])\<rparr>"
    using s' by auto
  have fresh: "secrets_store s secret_id = None"
    unfolding id using assms(1) inv by (rule inv_fresh)
  have st: "secrets_store s' = (secrets_store s)(secret_id \<mapsto> PDict [(field, v)])"
    by (subst upd) simp
  have d: "dom (secrets_store s') = insert secret_id (dom (secrets_store s))"
    by (simp add: st)
  have "secret_id \<notin> dom (secrets_store s)" using fresh by auto
  then have c: "card (dom (secrets_store s')) = Suc (card (dom (secrets_store s)))"
    using inv_finite [OF inv] by (simp add: d)
  have keep: "\<forall>k \<in> dom (secrets_store s). secrets_store s' k = secrets_store s k"
    using fresh by (auto simp: st)
  have "fst (retrieve_secret secret_id s') = Inr (PDict [(field, v)], 200)"
    by (simp add: st retrieve_present)
  with fresh d c keep show ?thesis by blast
qed

text \<open>C5 at the store that holds one secret, when a second one is put.\<close>

theorem put_adds_one_entry_witness:
  "inj uuid4_example
   \<and> store_secret uuid4_example (PDict [(''encrypted_data'', PStr ''b'')])
        (serve uuid4_example [POST (PDict [(''encrypted_data'', PStr ''a'')])] initial)
       = (Inr (created_201 ''uu''),
          snd (store_secret uuid4_example (PDict [(''encrypted_data'', PStr ''b'')])
            (serve uuid4_example [POST (PDict [(''encrypted_data'', PStr ''a'')])] initial)))
   \<and> secrets_store (serve uuid4_example [POST (PDict [(''encrypted_data'', PStr ''a'')])] initial) ''uu'' = None
   \<and> dom (secrets_store (snd (store_secret uuid4_example (PDict [(''encrypted_data'', PStr ''b'')])
            (serve uuid4_example [POST (PDict [(''encrypted_data'', PStr ''a'')])] initial))))
       = {''u'', ''uu''}
   \<and> card (dom (secrets_store (snd (store_secret uuid4_example (PDict [(''encrypted_data'', PStr ''b'')])
            (serve uuid4_example [POST (PDict [(''encrypted_data'', PStr ''a'')])] initial)))))
       = 2
   \<and> secrets_store (snd (store_secret uuid4_example (PDict [(''encrypted_data'', PStr ''b'')])
            (serve uuid4_example [POST (PDict [(''encrypted_data'', PStr ''a'')])] initial))) ''u''
       = Some (PDict [(''encrypted_data'', PStr ''a'')])
   \<and> fst (retrieve_secret ''uu'' (snd (store_secret uuid4_example (PDict [(''encrypted_data'', PStr ''b'')])
            (serve uuid4_example [POST (PDict [(''encrypted_data'', PStr ''a'')])] initial))))
       = Inr (PDict [(''encrypted_data'', PStr ''b'')], 200)"
proof -
  let ?s = "serve uuid4_example [POST (PDict [(''encrypted_data'', PStr ''a'')])] initial"
  let ?b = "PDict [(''encrypted_data'', PStr ''b'')]"
  have run: "store_secret uuid4_example ?b ?s
       = (Inr (created_201 ''uu''), snd (store_secret uuid4_example ?b ?s))"
    by (simp add: example_defs)
  have dom_s: "dom (secrets_store ?s) = {''u''}"
    by (simp add: example_defs)
  have old: "secrets_store ?s ''u'' = Some (PDict [(''encrypted_data'', PStr ''a'')])"
    by (simp add: example_defs)
  have take: "fst (retrieve_secret ''uu'' (snd (store_secret uuid4_example ?b ?s)))
       = Inr (PDict [(''encrypted_data'', PStr ''b'')], 200)"
    by (simp add: example_defs)
  note inst = put_adds_one_entry [OF inj_uuid4_example refl run]
  from inst have fresh: "secrets_store ?s ''uu'' = None" by blast
  from inst have "dom (secrets_store (snd (store_secret uuid4_example ?b ?s))) = insert ''uu'' (dom (secrets_store ?s))"
    by blast
  with dom_s have d: "dom (secrets_store (snd (store_secret uuid4_example ?b ?s))) = {''u'', ''uu''}"
    by auto
  from inst have "card (dom (secrets_store (snd (store_secret uuid4_example ?b ?s)))) = Suc (card (dom (secrets_store ?s)))"
    by blast
  with dom_s have c: "card (dom (secrets_store (snd (store_secret uuid4_example ?b ?s)))) = 2"
    by simp
  from inst have "\<forall>k \<in> dom (secrets_store ?s). secrets_store (snd (store_secret uuid4_example ?b ?s)) k = secrets_store ?s k"
    by blast
  with dom_s old have keep: "secrets_store (snd (store_secret uuid4_example ?b ?s)) ''u'' = Some (PDict [(''encrypted_data'', PStr ''a'')])"
    by simp
  from inj_uuid4_example run fresh d c keep take show ?thesis by (intro conjI)
qed

text \<open>
  Claim C8 (the invariant of the vault). Let the generator never repeat an identifier. In
  every state the server reaches from the empty store:
  \<^item> an entry \<open>k\<close> of the store was put there by exactly one request of the history, a
    \<^verbatim>\<open>store_secret\<close> that answered 201 with \<open>k\<close>; the entry is the payload of that request,
    and no retrieval of \<open>k\<close> came after it;
  \<^item> an identifier that was in the store and is no longer there never comes back;
  \<^item> a request that removes an entry is the retrieval of its identifier, and it answers 200
    with the entry;
  \<^item> an entry that a request leaves in the store is left as it was;
  \<^item> a retrieval answers the 404 or the whole stored secret.
\<close>

theorem vault_invariant:
  assumes "inj uuid4"
  shows "(secrets_store (serve uuid4 reqs initial) k = Some secret \<longrightarrow>
           (\<exists>!pre. \<exists>data post p. reqs = pre @ POST data # post
              \<and> fst (store_secret uuid4 data (serve uuid4 pre initial)) = Inr (created_201 k)
              \<and> py_getitem data field = Inr p \<and> secret = PDict [(field, p)]
              \<and> GET k \<notin> set post))
       \<and> (secrets_store (serve uuid4 before initial) gone \<noteq> None
            \<and> secrets_store (serve uuid4 (before @ mid) initial) gone = None \<longrightarrow>
           secrets_store (serve uuid4 (before @ mid @ rest) initial) gone = None)
       \<and> (secrets_store (serve uuid4 trace initial) taken = Some payload
            \<and> secrets_store (snd (handle uuid4 r (serve uuid4 trace initial))) taken = None \<longrightarrow>
           r = GET taken \<and> fst (handle uuid4 r (serve uuid4 trace initial)) = Inr (payload, 200))
       \<and> (secrets_store (serve uuid4 hist initial) kept = Some held
            \<and> secrets_store (snd (handle uuid4 q (serve uuid4 hist initial))) kept \<noteq> None \<longrightarrow>
           secrets_store (snd (handle uuid4 q (serve uuid4 hist initial))) kept = Some held)
       \<and> (fst (retrieve_secret asked s) = Inr not_found_404
            \<or> (\<exists>whole. secrets_store s asked = Some whole
                  \<and> fst (retrieve_secret asked s) = Inr (whole, 200)))"
proof -
  have a: "\<exists>!pre. \<exists>data post p. reqs = pre @ POST data # post
              \<and> fst (store_secret uuid4 data (serve uuid4 pre initial)) = Inr (created_201 k)
              \<and> py_getitem data field = Inr p \<and> secret = PDict [(field, p)]
              \<and> GET k \<notin> set post"
    if live: "secrets_store (serve uuid4 reqs initial) k = Some secret"
  proof (rule ex_ex1I)
    from live_origin [OF live] obtain pre data post p where
      "reqs = pre @ POST data # post
         \<and> fst (store_secret uuid4 data (serve uuid4 pre initial)) = Inr (created_201 k)
         \<and> py_getitem data field = Inr p \<and> secret = PDict [(field, p)]
         \<and> GET k \<notin> set post"
      by blast
    then show "\<exists>pre data post p. reqs = pre @ POST data # post
         \<and> fst (store_secret uuid4 data (serve uuid4 pre initial)) = Inr (created_201 k)
         \<and> py_getitem data field = Inr p \<and> secret = PDict [(field, p)]
         \<and> GET k \<notin> set post"
      by blast
  next
    fix pre1 pre2
    assume "\<exists>data post p. reqs = pre1 @ POST data # post
         \<and> fst (store_secret uuid4 data (serve uuid4 pre1 initial)) = Inr (created_201 k)
         \<and> py_getitem data field = Inr p \<and> secret = PDict [(field, p)]
         \<and> GET k \<notin> set post"
    then obtain d1 post1 where 1: "reqs = pre1 @ POST d1 # post1"
      "fst (store_secret uuid4 d1 (serve uuid4 pre1 initial)) = Inr (created_201 k)"
      by blast
    assume "\<exists>data post p. reqs = pre2 @ POST data # post
         \<and> fst (store_secret uuid4 data (serve uuid4 pre2 initial)) = Inr (created_201 k)
         \<and> py_getitem data field = Inr p \<and> secret = PDict [(field, p)]
         \<and> GET k \<notin> set post"
    then obtain d2 post2 where 2: "reqs = pre2 @ POST d2 # post2"
      "fst (store_secret uuid4 d2 (serve uuid4 pre2 initial)) = Inr (created_201 k)"
      by blast
    from assms 1 2 show "pre1 = pre2" by (rule origin_unique)
  qed
  have b: "secrets_store (serve uuid4 (before @ mid @ rest) initial) gone = None"
    if "secrets_store (serve uuid4 before initial) gone \<noteq> None"
      and "secrets_store (serve uuid4 (before @ mid) initial) gone = None"
    using assms that by (rule gone_stays_gone)
  have c: "r = GET taken \<and> fst (handle uuid4 r (serve uuid4 trace initial)) = Inr (payload, 200)"
    if "secrets_store (serve uuid4 trace initial) taken = Some payload"
      and "secrets_store (snd (handle uuid4 r (serve uuid4 trace initial))) taken = None"
    using that by (rule removal_is_take)
  have d: "secrets_store (snd (handle uuid4 q (serve uuid4 hist initial))) kept = Some held"
    if "secrets_store (serve uuid4 hist initial) kept = Some held"
      and "secrets_store (snd (handle uuid4 q (serve uuid4 hist initial))) kept \<noteq> None"
    using assms that by (rule kept_is_unchanged)
  note e = take_all_or_nothing [of asked s]
  have A: "secrets_store (serve uuid4 reqs initial) k = Some secret \<longrightarrow>
           (\<exists>!pre. \<exists>data post p. reqs = pre @ POST data # post
              \<and> fst (store_secret uuid4 data (serve uuid4 pre initial)) = Inr (created_201 k)
              \<and> py_getitem data field = Inr p \<and> secret = PDict [(field, p)]
              \<and> GET k \<notin> set post)"
    by (rule impI) (rule a)
  have B: "secrets_store (serve uuid4 before initial) gone \<noteq> None
            \<and> secrets_store (serve uuid4 (before @ mid) initial) gone = None \<longrightarrow>
           secrets_store (serve uuid4 (before @ mid @ rest) initial) gone = None"
    using b by blast
  have C: "secrets_store (serve uuid4 trace initial) taken = Some payload
            \<and> secrets_store (snd (handle uuid4 r (serve uuid4 trace initial))) taken = None \<longrightarrow>
           r = GET taken \<and> fst (handle uuid4 r (serve uuid4 trace initial)) = Inr (payload, 200)"
    using c by blast
  have D: "secrets_store (serve uuid4 hist initial) kept = Some held
            \<and> secrets_store (snd (handle uuid4 q (serve uuid4 hist initial))) kept \<noteq> None \<longrightarrow>
           secrets_store (snd (handle uuid4 q (serve uuid4 hist initial))) kept = Some held"
    using d by blast
  show ?thesis by (intro conjI) (rule A, rule B, rule C, rule D, rule e)
qed

text \<open>
  C8 on a history of two puts and the retrieval of the first: the second secret has its one
  origin, the first one stays gone when the same payload is put again, and a put leaves the
  entry of the first as it was.
\<close>

theorem vault_invariant_witness:
  "inj uuid4_example
   \<and> secrets_store (serve uuid4_example
        [POST (PDict [(''encrypted_data'', PStr ''a'')]),
         POST (PDict [(''encrypted_data'', PStr ''b'')]), GET ''u''] initial) ''uu''
       = Some (PDict [(''encrypted_data'', PStr ''b'')])
   \<and> (\<exists>!pre. \<exists>data post p.
         [POST (PDict [(''encrypted_data'', PStr ''a'')]),
          POST (PDict [(''encrypted_data'', PStr ''b'')]), GET ''u''] = pre @ POST data # post
         \<and> fst (store_secret uuid4_example data (serve uuid4_example pre initial))
             = Inr (created_201 ''uu'')
         \<and> py_getitem data field = Inr p
         \<and> PDict [(''encrypted_data'', PStr ''b'')] = PDict [(field, p)]
         \<and> GET ''uu'' \<notin> set post)
   \<and> secrets_store (serve uuid4_example [POST (PDict [(''encrypted_data'', PStr ''a'')])] initial) ''u''
       \<noteq> None
   \<and> secrets_store (serve uuid4_example
        ([POST (PDict [(''encrypted_data'', PStr ''a'')])] @ [GET ''u'']) initial) ''u'' = None
   \<and> secrets_store (serve uuid4_example
        ([POST (PDict [(''encrypted_data'', PStr ''a'')])] @ [GET ''u'']
           @ [POST (PDict [(''encrypted_data'', PStr ''a'')]), GET ''u'']) initial) ''u'' = None
   \<and> secrets_store (snd (handle uuid4_example (GET ''u'')
        (serve uuid4_example [POST (PDict [(''encrypted_data'', PStr ''a'')])] initial))) ''u'' = None
   \<and> fst (handle uuid4_example (GET ''u'')
        (serve uuid4_example [POST (PDict [(''encrypted_data'', PStr ''a'')])] initial))
       = Inr (PDict [(''encrypted_data'', PStr ''a'')], 200)
   \<and> secrets_store (snd (handle uuid4_example (POST (PDict [(''encrypted_data'', PStr ''b'')]))
        (serve uuid4_example [POST (PDict [(''encrypted_data'', PStr ''a'')])] initial))) ''u''
       = Some (PDict [(''encrypted_data'', PStr ''a'')])"
proof -
  let ?a = "PDict [(''encrypted_data'', PStr ''a'')]"
  let ?b = "PDict [(''encrypted_data'', PStr ''b'')]"
  note inst = vault_invariant [OF inj_uuid4_example,
      where reqs = "[POST ?a, POST ?b, GET ''u'']" and k = "''uu''" and secret = ?b
        and before = "[POST ?a]" and mid = "[GET ''u'']" and rest = "[POST ?a, GET ''u'']"
        and gone = "''u''"
        and trace = "[POST ?a]" and taken = "''u''" and payload = ?a and r = "GET ''u''"
        and hist = "[POST ?a]" and kept = "''u''" and held = ?a and q = "POST ?b"]
  have live: "secrets_store (serve uuid4_example [POST ?a, POST ?b, GET ''u''] initial) ''uu'' = Some ?b"
    by (simp add: example_defs)
  have one: "secrets_store (serve uuid4_example [POST ?a] initial) ''u'' = Some ?a"
    by (simp add: example_defs)
  then have was: "secrets_store (serve uuid4_example [POST ?a] initial) ''u'' \<noteq> None"
    by simp
  have gone: "secrets_store (serve uuid4_example ([POST ?a] @ [GET ''u'']) initial) ''u'' = None"
    by (simp add: example_defs)
  have taken: "secrets_store (snd (handle uuid4_example (GET ''u'')
        (serve uuid4_example [POST ?a] initial))) ''u'' = None"
    by (simp add: retrieve_removes)
  have kept: "secrets_store (snd (handle uuid4_example (POST ?b)
        (serve uuid4_example [POST ?a] initial))) ''u'' \<noteq> None"
    by (simp add: example_defs)
  from inst [THEN conjunct1] live have a: "\<exists>!pre. \<exists>data post p.
         [POST ?a, POST ?b, GET ''u''] = pre @ POST data # post
         \<and> fst (store_secret uuid4_example data (serve uuid4_example pre initial))
             = Inr (created_201 ''uu'')
         \<and> py_getitem data field = Inr p
         \<and> ?b = PDict [(field, p)]
         \<and> GET ''uu'' \<notin> set post"
    by (rule mp)
  from inst [THEN conjunct2, THEN conjunct1] was gone
  have b: "secrets_store (serve uuid4_example
        ([POST ?a] @ [GET ''u''] @ [POST ?a, GET ''u'']) initial) ''u'' = None"
    by blast
  from inst [THEN conjunct2, THEN conjunct2, THEN conjunct1] one taken
  have c: "fst (handle uuid4_example (GET ''u'') (serve uuid4_example [POST ?a] initial))
       = Inr (?a, 200)"
    by blast
  from inst [THEN conjunct2, THEN conjunct2, THEN conjunct2, THEN conjunct1] one kept
  have d: "secrets_store (snd (handle uuid4_example (POST ?b)
        (serve uuid4_example [POST ?a] initial))) ''u'' = Some ?a"
    by blast
  from inj_uuid4_example live a was gone b taken c d show ?thesis by (intro conjI)
qed

text \<open>
  Claim C6 (concurrent exactly-once delivery). Let \<open>s\<close> be a state the server reaches whose
  store holds \<open>secret\<close> under \<open>secret_id\<close>, and let \<open>n \<ge> 1\<close> threads each serve a retrieval of
  \<open>secret_id\<close>, their steps interleaved in any order, the pop of line 36 being one step. In
  every configuration they reach, at most one thread has seen the secret, and a thread that
  has answered has answered 200 with the secret or the 404. Once all have answered, exactly
  one has the 200 with the secret and the other \<open>n - 1\<close> have the 404. Every schedule is
  such an interleaving, and under a schedule that runs each thread at least twice all
  threads have answered.
\<close>

theorem concurrent_exactly_once:
  assumes "0 < n"
    and "s = serve uuid4 reqs initial"
    and "secrets_store s secret_id = Some secret"
    and "rtranclp step (replicate n (Ready secret_id), s) (ts, s')"
  shows "length ts = n
       \<and> card {i. i < n \<and> observed_success (ts ! i)} \<le> 1
       \<and> (\<forall>i r. i < n \<and> ts ! i = Answered r \<longrightarrow> r = (secret, 200) \<or> r = not_found_404)
       \<and> ((\<forall>i. i < n \<longrightarrow> is_answered (ts ! i)) \<longrightarrow>
              card {i. i < n \<and> ts ! i = Answered (secret, 200)} = 1
            \<and> card {i. i < n \<and> ts ! i = Answered not_found_404} = n - 1)
       \<and> rtranclp step (replicate n (Ready secret_id), s)
            (interleave sched (replicate n (Ready secret_id), s))
       \<and> ((\<forall>i. i < n \<longrightarrow> 2 \<le> count_list sched i) \<longrightarrow>
            (\<forall>i. i < n \<longrightarrow>
               is_answered (fst (interleave sched (replicate n (Ready secret_id), s)) ! i)))"
proof -
  have "store_inv uuid4 s" using assms(2) by (simp add: store_inv_reachable)
  then have tr: "truthy secret" using assms(3) by (rule inv_truthy)
  have "race_inv secret_id secret (replicate n (Ready secret_id), s)"
    using assms(3) by (rule race_inv_start)
  with assms(4) tr have "race_inv secret_id secret (ts, s')
      \<and> length (fst (ts, s')) = length (fst (replicate n (Ready secret_id), s))"
    by (rule race_inv_steps)
  then have inv: "race_inv secret_id secret (ts, s')" and len: "length ts = n" by simp_all
  have one: "card {i. i < n \<and> observed_success (ts ! i)} \<le> 1"
    using race_one_winner [OF tr inv] by (simp add: len)
  have two: "\<forall>i r. i < n \<and> ts ! i = Answered r \<longrightarrow> r = (secret, 200) \<or> r = not_found_404"
    using race_answers [OF inv] len by blast
  have three: "(\<forall>i. i < n \<longrightarrow> is_answered (ts ! i)) \<longrightarrow>
              card {i. i < n \<and> ts ! i = Answered (secret, 200)} = 1
            \<and> card {i. i < n \<and> ts ! i = Answered not_found_404} = n - 1"
    using race_all_answered [OF tr inv] assms(1) by (simp add: len)
  have four: "rtranclp step (replicate n (Ready secret_id), s)
            (interleave sched (replicate n (Ready secret_id), s))"
    by (rule interleave_steps)
  have five: "(\<forall>i. i < n \<longrightarrow> 2 \<le> count_list sched i) \<longrightarrow>
            (\<forall>i. i < n \<longrightarrow>
               is_answered (fst (interleave sched (replicate n (Ready secret_id), s)) ! i))"
    using fair_schedule_answers [of n sched _ secret_id s] by simp
  show ?thesis by (intro conjI) (rule len, rule one, rule two, rule three, rule four, rule five)
qed

text \<open>
  C6 for three threads racing for the one stored secret: the first thread pops first and
  answers last; it is the one with the secret, the other two answer the 404.
\<close>

theorem concurrent_exactly_once_witness:
  "(0::nat) < 3
   \<and> secrets_store (serve uuid4_example [POST (PDict [(''encrypted_data'', PStr ''a'')])] initial) ''u''
       = Some (PDict [(''encrypted_data'', PStr ''a'')])
   \<and> rtranclp step
        (replicate 3 (Ready ''u''),
         serve uuid4_example [POST (PDict [(''encrypted_data'', PStr ''a'')])] initial)
        (interleave [0, Suc 0, Suc (Suc 0), Suc (Suc 0), Suc 0, 0]
           (replicate 3 (Ready ''u''),
            serve uuid4_example [POST (PDict [(''encrypted_data'', PStr ''a'')])] initial))
   \<and> fst (interleave [0, Suc 0, Suc (Suc 0), Suc (Suc 0), Suc 0, 0]
           (replicate 3 (Ready ''u''),
            serve uuid4_example [POST (PDict [(''encrypted_data'', PStr ''a'')])] initial))
       = [Answered (PDict [(''encrypted_data'', PStr ''a'')], 200),
          Answered not_found_404, Answered not_found_404]
   \<and> card {i. i < 3 \<and> observed_success
        (fst (interleave [0, Suc 0, Suc (Suc 0), Suc (Suc 0), Suc 0, 0]
           (replicate 3 (Ready ''u''),
            serve uuid4_example [POST (PDict [(''encrypted_data'', PStr ''a'')])] initial)) ! i)} \<le> 1
   \<and> card {i. i < 3 \<and>
        fst (interleave [0, Suc 0, Suc (Suc 0), Suc (Suc 0), Suc 0, 0]
           (replicate 3 (Ready ''u''),
            serve uuid4_example [POST (PDict [(''encrypted_data'', PStr ''a'')])] initial)) ! i
          = Answered (PDict [(''encrypted_data'', PStr ''a'')], 200)} = 1
   \<and> card {i. i < 3 \<and>
        fst (interleave [0, Suc 0, Suc (Suc 0), Suc (Suc 0), Suc 0, 0]
           (replicate 3 (Ready ''u''),
            serve uuid4_example [POST (PDict [(''encrypted_data'', PStr ''a'')])] initial)) ! i
          = Answered not_found_404} = 3 - 1"
proof -
  let ?a = "PDict [(''encrypted_data'', PStr ''a'')]"
  let ?s = "serve uuid4_example [POST ?a] initial"
  let ?sched = "[0, Suc 0, Suc (Suc 0), Suc (Suc 0), Suc 0, 0]"
  let ?fin = "interleave ?sched (replicate 3 (Ready ''u''), ?s)"
  have n: "(0::nat) < 3" by simp
  have live: "secrets_store ?s ''u'' = Some ?a" by (simp add: example_defs)
  have run: "rtranclp step (replicate 3 (Ready ''u''), ?s) (fst ?fin, snd ?fin)"
    by (simp only: prod.collapse) (rule interleave_steps)
  note inst = concurrent_exactly_once [OF n refl live run, where sched = ?sched]
  have final: "fst ?fin = [Answered (?a, 200), Answered not_found_404, Answered not_found_404]"
    by (simp add: numeral_3_eq_3 example_defs pop_secret_def answer_def)
  have fair: "\<forall>i. i < 3 \<longrightarrow> 2 \<le> count_list ?sched i"
    by (auto simp: numeral_3_eq_3 less_Suc_eq)
  from inst have "(\<forall>i. i < 3 \<longrightarrow> 2 \<le> count_list ?sched i) \<longrightarrow>
      (\<forall>i. i < 3 \<longrightarrow> is_answered (fst ?fin ! i))"
    by blast
  with fair have answered: "\<forall>i. i < 3 \<longrightarrow> is_answered (fst ?fin ! i)" by (rule rev_mp)
  from inst have one: "card {i. i < 3 \<and> observed_success (fst ?fin ! i)} \<le> 1" by blast
  from inst have "(\<forall>i. i < 3 \<longrightarrow> is_answered (fst ?fin ! i)) \<longrightarrow>
       card {i. i < 3 \<and> fst ?fin ! i = Answered (?a, 200)} = 1
     \<and> card {i. i < 3 \<and> fst ?fin ! i = Answered not_found_404} = 3 - 1"
    by blast
  with answered have counts: "card {i. i < 3 \<and> fst ?fin ! i = Answered (?a, 200)} = 1
     \<and> card {i. i < 3 \<and> fst ?fin ! i = Answered not_found_404} = 3 - 1"
    by (rule rev_mp)
  from inst have reach: "rtranclp step (replicate 3 (Ready ''u''), ?s) ?fin" by blast
  from n live reach final one counts show ?thesis by (intro conjI) (simp_all only:)
qed

end
